theory Spec2Isabelle
  imports Main "HOL-Library.Sublist" "HOL-Library.Multiset"
begin

section \<open>The exclusion predicate of \<^verbatim>\<open>create_archive.py\<close>\<close>

text \<open>
  Python's \<^verbatim>\<open>exclude in path_str\<close> on two strings: the left string occurs as a
  contiguous run of characters somewhere in the right one. The test is tried at the front
  of the string and then at the front of each shorter tail; the empty pattern occurs in
  every string, the empty one included.
\<close>

fun str_in :: "string \<Rightarrow> string \<Rightarrow> bool" where
  "str_in pat [] = (pat = [])"
| "str_in pat (c # cs) = (prefix pat (c # cs) \<or> str_in pat cs)"

text \<open>The literal list \<^verbatim>\<open>excludes\<close> of \<^verbatim>\<open>should_exclude\<close>, in source order.\<close>

definition excludes :: "string list" where
  "excludes =
    [''node_modules'', ''.git'', ''dist'', ''build'', ''.config'',
     ''attached_assets'', ''public/uploads'', ''public/tech_profiles'',
     ''public/images'', ''public/assets'', ''server/tests'',
     ''.jpg'', ''.jpeg'', ''.png'', ''.gif'', ''.svg'', ''.webp'', ''.ico'',
     ''.pdf'', ''.xlsx'', ''.docx'', ''.txt'', ''.mp4'', ''.mov'',
     ''.tar.gz'', ''.zip'', ''.log'']"

text \<open>
  The loop \<^verbatim>\<open>for exclude in excludes: if exclude in path_str: return True\<close> followed by
  \<^verbatim>\<open>return False\<close>, over an arbitrary rule list: the first matching rule returns.
\<close>

fun should_exclude_with :: "string list \<Rightarrow> string \<Rightarrow> bool" where
  "should_exclude_with [] path_str = False"
| "should_exclude_with (exclude # rest) path_str =
     (if str_in exclude path_str then True else should_exclude_with rest path_str)"

text \<open>
  \<^verbatim>\<open>should_exclude(path_str)\<close>: the loop over the literal list.
\<close>

definition should_exclude :: "string \<Rightarrow> bool" where
  "should_exclude path_str = should_exclude_with excludes path_str"


section \<open>The file system seen by the run\<close>

text \<open>
  What a path names: a file that is not a directory, with its bytes when they can be read
  (\<open>None\<close> stands for a file whose reading fails: no permission, or in a listing a
  dangling link), or a
  directory with its listing in the order \<^verbatim>\<open>os.scandir\<close> produces it. A symbolic link
  counts as what it points to. A link to a directory met below a root is listed but not
  followed by \<^verbatim>\<open>os.walk\<close>, and a directory that cannot be listed yields nothing: for
  the archive and the console both behave as a directory with an empty listing. Paths
  are POSIX paths, strings are byte strings.
\<close>

datatype fsnode = File "string option" | Dir "(string \<times> fsnode) list"

text \<open>
  A directory listing; a list of files, each a path or a name with the bytes read from it;
  and the answer of the file system to the path of a root.
\<close>

type_synonym listing = "(string \<times> fsnode) list"

type_synonym file_list = "(string \<times> string option) list"

type_synonym filesystem = "string \<Rightarrow> fsnode option"

text \<open>\<^verbatim>\<open>os.path.join(a, b)\<close> of \<^verbatim>\<open>posixpath\<close> on two components.\<close>

definition path_join :: "string \<Rightarrow> string \<Rightarrow> string" where
  "path_join a b =
     (if b \<noteq> [] \<and> hd b = CHR ''/'' then b
      else if a = [] \<or> last a = CHR ''/'' then a @ b
      else a @ ''/'' @ b)"

fun is_dir :: "fsnode \<Rightarrow> bool" where
  "is_dir (Dir es) = True"
| "is_dir (File c) = False"

text \<open>
  \<^verbatim>\<open>os.walk\<close> splits one listing into \<^verbatim>\<open>dirs\<close> and \<^verbatim>\<open>files\<close> (its \<^verbatim>\<open>nondirs\<close>),
  each in listing order. A file name is kept with the bytes that reading the joined path
  gives.
\<close>

definition scan_dirs :: "listing \<Rightarrow> listing" where
  "scan_dirs es = filter (\<lambda>(name, node). is_dir node) es"

fun scan_nondirs :: "listing \<Rightarrow> file_list" where
  "scan_nondirs [] = []"
| "scan_nondirs ((name, File c) # es) = (name, c) # scan_nondirs es"
| "scan_nondirs ((name, Dir sub) # es) = scan_nondirs es"


section \<open>Archive, console and outcome of a run\<close>

text \<open>
  One entry of the archive: the path \<^verbatim>\<open>zipf.write\<close> read the file from, the name
  it is stored under, and the uncompressed bytes.
\<close>

record zip_entry =
  filename :: string
  arcname :: string
  data :: string

text \<open>
  The state a run builds: the entries of the archive in the order written, the strings
  passed to \<^verbatim>\<open>print\<close> in order, and a trace \<open>entered\<close> of the values the loop variable
  \<^verbatim>\<open>root\<close> of \<^verbatim>\<open>for root, dirs, files in os.walk(path)\<close> takes, that is of the
  directories the walk lists.
\<close>

record run_state =
  archive :: "zip_entry list"
  console :: "string list"
  entered :: "string list"

text \<open>
  The only failure modelled: a file that cannot be read, with its path.
\<close>

datatype error = OSError string

text \<open>
  A run ends normally or an exception leaves \<^verbatim>\<open>create_zip\<close>; the state reached is kept
  in both cases.
\<close>

datatype outcome = Done run_state | Raised error run_state

fun state_of :: "outcome \<Rightarrow> run_state" where
  "state_of (Done st) = st"
| "state_of (Raised e st) = st"

text \<open>
  \<^verbatim>\<open>print(line)\<close>.
\<close>

definition py_print :: "string \<Rightarrow> run_state \<Rightarrow> run_state" where
  "py_print line st = st\<lparr>console := console st @ [line]\<rparr>"

text \<open>
  \<^verbatim>\<open>zipf.write(filename, arcname)\<close>: reads the file and appends one entry; a file that
  cannot be read raises.
\<close>

definition zipf_write :: "string \<Rightarrow> string option \<Rightarrow> string \<Rightarrow> run_state \<Rightarrow> outcome" where
  "zipf_write file content arc st =
     (case content of
        None \<Rightarrow> Raised (OSError file) st
      | Some bytes \<Rightarrow>
          Done (st\<lparr>archive := archive st @ [\<lparr>filename = file, arcname = arc, data = bytes\<rparr>]\<rparr>))"


section \<open>\<^verbatim>\<open>create_zip\<close>\<close>

text \<open>
  The guarded body shared by the two branches:
  \<^verbatim>\<open>if not should_exclude(p): print(f"Adding file: {p}"); zipf.write(p, p)\<close>.
\<close>

definition add_file :: "string \<Rightarrow> string option \<Rightarrow> run_state \<Rightarrow> outcome" where
  "add_file file_path content st =
     (if \<not> should_exclude file_path
      then zipf_write file_path content file_path (py_print (''Adding file: '' @ file_path) st)
      else Done st)"

text \<open>The loop \<^verbatim>\<open>for file in files\<close> of one directory.\<close>

fun add_files :: "string \<Rightarrow> file_list \<Rightarrow> run_state \<Rightarrow> outcome" where
  "add_files root [] st = Done st"
| "add_files root ((file, content) # files) st =
     (case add_file (path_join root file) content st of
        Raised e st' \<Rightarrow> Raised e st'
      | Done st' \<Rightarrow> add_files root files st')"

lemma size_list_filter_le: "size_list f (filter P xs) \<le> size_list f xs"
  by (induction xs) auto

lemma size_kept_dirs:
  "size_list (\<lambda>p. size (snd p)) (filter P (scan_dirs es)) < size (Dir es)"
proof -
  have "size_list (\<lambda>p. size (snd p)) (filter P (scan_dirs es))
        \<le> size_list (\<lambda>p. size (snd p)) es"
    unfolding scan_dirs_def by (meson size_list_filter_le order_trans)
  also have "\<dots> \<le> size_list (size_prod (\<lambda>x. 0) size) es"
    by (rule size_list_pointwise) (auto simp: size_prod_simp)
  finally show ?thesis by simp
qed

text \<open>
  The loop over \<^verbatim>\<open>os.walk(path)\<close>, top down: one iteration for the directory itself
  (\<^verbatim>\<open>dirs[:]\<close> is filtered, then the files are added), then the walk of each directory
  left in \<^verbatim>\<open>dirs\<close>, in order. Walking what is not a directory yields nothing.
\<close>

function walk :: "string \<Rightarrow> fsnode \<Rightarrow> run_state \<Rightarrow> outcome"
  and walk_dirs :: "string \<Rightarrow> listing \<Rightarrow> run_state \<Rightarrow> outcome" where
  "walk root (File c) st = Done st"
| "walk root (Dir es) st =
     (let dirs = filter (\<lambda>(d, sub). \<not> should_exclude (path_join root d)) (scan_dirs es);
          files = scan_nondirs es
      in case add_files root files (st\<lparr>entered := entered st @ [root]\<rparr>) of
           Raised e st' \<Rightarrow> Raised e st'
         | Done st' \<Rightarrow> walk_dirs root dirs st')"
| "walk_dirs root [] st = Done st"
| "walk_dirs root ((d, sub) # dirs) st =
     (case walk (path_join root d) sub st of
        Raised e st' \<Rightarrow> Raised e st'
      | Done st' \<Rightarrow> walk_dirs root dirs st')"
  by pat_completeness auto
termination
  by (relation "measure (case_sum (\<lambda>(root, t, st). size t)
                   (\<lambda>(root, ds, st). size_list (\<lambda>p. size (snd p)) ds))")
    (auto simp: size_kept_dirs simp del: fsnode.size)

text \<open>
  The literal list \<^verbatim>\<open>includes\<close> (here \<open>includes_list\<close>) and the archive's file
  name. \<^verbatim>\<open>Path(include)\<close> and \<^verbatim>\<open>str(path)\<close> leave each of these strings as it is.
\<close>

definition includes_list :: "string list" where
  "includes_list =
    [''client/src'', ''server'', ''shared/schema.ts'', ''package.json'', ''tsconfig.json'',
     ''drizzle.config.ts'', ''tailwind.config.ts'', ''components.json'', ''vite.config.ts'',
     ''postcss.config.js'']"

definition zip_filename :: string where
  "zip_filename = ''clean-machine-core.zip''"

text \<open>
  One iteration of \<^verbatim>\<open>for include in includes\<close>. \<open>fs\<close> answers what a root path
  names in the working directory: nothing, a file or a directory tree.
\<close>

definition add_include :: "filesystem \<Rightarrow> string \<Rightarrow> run_state \<Rightarrow> outcome" where
  "add_include fs path st =
     (case fs path of
        Some (File content) \<Rightarrow> add_file path content st
      | Some (Dir es) \<Rightarrow> walk path (Dir es) st
      | None \<Rightarrow> Done st)"

text \<open>
  The loop \<^verbatim>\<open>for include in includes\<close>; an exception ends it.
\<close>

fun add_includes :: "filesystem \<Rightarrow> string list \<Rightarrow> run_state \<Rightarrow> outcome" where
  "add_includes fs [] st = Done st"
| "add_includes fs (include # rest) st =
     (case add_include fs include st of
        Raised e st' \<Rightarrow> Raised e st'
      | Done st' \<Rightarrow> add_includes fs rest st')"

text \<open>Decimal digits of a natural number, as \<^verbatim>\<open>str\<close> prints them.\<close>

definition digit :: "nat \<Rightarrow> char" where
  "digit d = ''0123456789'' ! d"

fun show_nat :: "nat \<Rightarrow> string" where
  "show_nat n =
     (if n < 10 then [digit n]
      else show_nat (n div 10) @ [digit (n mod 10)])"

text \<open>
  \<^verbatim>\<open>size / (1024 * 1024)\<close> formatted with \<^verbatim>\<open>:.2f\<close>. For a size below \<open>2 ^ 53\<close> the
  float quotient is the exact value, and the format rounds it to the nearest hundredth,
  a tie going to the even one. \<open>hundredths\<close> is that number of hundredths.
\<close>

definition hundredths :: "nat \<Rightarrow> nat" where
  "hundredths nbytes =
     (let q = (nbytes * 100) div (1024 * 1024); r = (nbytes * 100) mod (1024 * 1024)
      in if 2 * r < 1024 * 1024 then q
         else if 2 * r > 1024 * 1024 then q + 1
         else if even q then q else q + 1)"

definition fmt_2f :: "nat \<Rightarrow> string" where
  "fmt_2f nbytes =
     (let h = hundredths nbytes
      in show_nat (h div 100) @ ''.'' @ show_nat (h mod 100 div 10) @ show_nat (h mod 10))"

text \<open>
  The string of the last \<^verbatim>\<open>print\<close>; it starts with a line feed.
\<close>

definition summary :: "nat \<Rightarrow> string" where
  "summary nbytes =
     [CHR 0x0A] @ ''Created '' @ zip_filename @ '' ('' @ fmt_2f nbytes @ '' MB)''"

text \<open>
  The archive is opened in mode \<^verbatim>\<open>w\<close>: it starts empty.
\<close>

definition init_state :: run_state where
  "init_state = \<lparr>archive = [], console = [], entered = []\<rparr>"

text \<open>
  \<^verbatim>\<open>create_zip\<close> over a given root list. The archive is opened empty (mode \<^verbatim>\<open>w\<close>);
  after the \<^verbatim>\<open>with\<close> block the size of the closed archive, \<open>zip_size\<close>, is read from the
  file system and the summary is printed. An exception in the block skips the summary.
\<close>

definition create_zip_with :: "string list \<Rightarrow> filesystem \<Rightarrow> nat \<Rightarrow> outcome" where
  "create_zip_with roots fs zip_size =
     (case add_includes fs roots init_state of
        Raised e st \<Rightarrow> Raised e st
      | Done st \<Rightarrow> Done (py_print (summary zip_size) st))"

text \<open>
  \<^verbatim>\<open>create_zip()\<close> itself: the run over the literal root list.
\<close>

definition create_zip :: "filesystem \<Rightarrow> nat \<Rightarrow> outcome" where
  "create_zip fs zip_size = create_zip_with includes_list fs zip_size"


section \<open>Files and directories of a tree\<close>

text \<open>
  The notions the claims speak of, defined on the tree and not through the walk.
  A listing of a real directory has non-empty names without \<open>/\<close>, no name twice; a
  root path is non-empty and does not end in \<open>/\<close>.
\<close>

definition wf_name :: "string \<Rightarrow> bool" where
  "wf_name name = (name \<noteq> [] \<and> CHR ''/'' \<notin> set name)"

fun wf_node :: "fsnode \<Rightarrow> bool" where
  "wf_node (File c) = True"
| "wf_node (Dir es) =
     (distinct (map fst es) \<and> list_all (\<lambda>(name, node). wf_name name \<and> wf_node node) es)"

definition ok_root :: "string \<Rightarrow> bool" where
  "ok_root r = (r \<noteq> [] \<and> last r \<noteq> CHR ''/'')"

text \<open>
  Every root of the list that names something names a file or a well-formed tree.
\<close>

definition wf_roots :: "filesystem \<Rightarrow> string list \<Rightarrow> bool" where
  "wf_roots fs roots =
     list_all (\<lambda>r. case fs r of None \<Rightarrow> True | Some t \<Rightarrow> wf_node t) roots"

text \<open>
  No root of the list is a proper prefix of another one.
\<close>

definition prefix_free :: "string list \<Rightarrow> bool" where
  "prefix_free roots = list_all (\<lambda>r. list_all (\<lambda>r'. prefix r r' \<longrightarrow> r = r') roots) roots"

text \<open>
  The files of one listing under their joined paths.
\<close>

definition at_root :: "string \<Rightarrow> file_list \<Rightarrow> file_list" where
  "at_root root files = map (\<lambda>(name, content). (path_join root name, content)) files"

lemma scan_dirs_size [termination_simp]:
  "(a, b) \<in> set (scan_dirs es) \<Longrightarrow> size b < Suc (size_list (\<lambda>x. Suc (size (snd x))) es)"
  unfolding scan_dirs_def by (induction es) (auto split: if_splits)

text \<open>
  Every file below a directory, with its joined path and its bytes: the files of the
  directory itself, then those below each subdirectory, in listing order. No path is
  excluded here.
\<close>

fun files_under :: "string \<Rightarrow> fsnode \<Rightarrow> file_list" where
  "files_under root (File c) = []"
| "files_under root (Dir es) =
     at_root root (scan_nondirs es) @
     concat (map (\<lambda>(d, sub). files_under (path_join root d) sub) (scan_dirs es))"

text \<open>
  Every directory strictly below a directory, with its joined path.
\<close>

fun dirs_under :: "string \<Rightarrow> fsnode \<Rightarrow> listing" where
  "dirs_under root (File c) = []"
| "dirs_under root (Dir es) =
     concat (map (\<lambda>(d, sub). (path_join root d, sub) # dirs_under (path_join root d) sub)
       (scan_dirs es))"

text \<open>
  The files reachable from one root: the root itself when it is a file, the files below it when it is a directory.
\<close>

definition root_files :: "filesystem \<Rightarrow> string \<Rightarrow> file_list" where
  "root_files fs path =
     (case fs path of
        Some (File content) \<Rightarrow> [(path, content)]
      | Some (Dir es) \<Rightarrow> files_under path (Dir es)
      | None \<Rightarrow> [])"

text \<open>
  The files reachable from a root list, root after root.
\<close>

definition reachable :: "filesystem \<Rightarrow> string list \<Rightarrow> file_list" where
  "reachable fs roots = concat (map (root_files fs) roots)"

text \<open>
  The files of a list whose path is not excluded.
\<close>

definition included :: "file_list \<Rightarrow> file_list" where
  "included plan = filter (\<lambda>(p, c). \<not> should_exclude p) plan"

definition readable :: "string \<times> string option \<Rightarrow> bool" where
  "readable f = (snd f \<noteq> None)"

text \<open>
  The entries that writing the readable files of a list gives, each under its own path.
\<close>

definition entries :: "file_list \<Rightarrow> zip_entry list" where
  "entries plan = [\<lparr>filename = p, arcname = p, data = bytes\<rparr>. (p, Some bytes) \<leftarrow> plan]"


section \<open>The run as one loop over a list of files\<close>

text \<open>
  For the proofs, the nested loops are flattened: \<open>walk_files\<close> lists the files the
  walk meets (those of pruned directories left out), \<open>add_paths\<close> runs the guarded body
  over such a list, and \<open>forget\<close> drops the trace of entered directories, which the
  flattened loop does not build.
\<close>

fun add_paths :: "file_list \<Rightarrow> run_state \<Rightarrow> outcome" where
  "add_paths [] st = Done st"
| "add_paths ((file_path, content) # rest) st =
     (case add_file file_path content st of
        Raised e st' \<Rightarrow> Raised e st'
      | Done st' \<Rightarrow> add_paths rest st')"

fun walk_files :: "string \<Rightarrow> fsnode \<Rightarrow> file_list" where
  "walk_files root (File c) = []"
| "walk_files root (Dir es) =
     at_root root (scan_nondirs es) @
     concat (map (\<lambda>(d, sub). walk_files (path_join root d) sub)
       (filter (\<lambda>(d, sub). \<not> should_exclude (path_join root d)) (scan_dirs es)))"

definition include_files :: "filesystem \<Rightarrow> string \<Rightarrow> file_list" where
  "include_files fs path =
     (case fs path of
        Some (File content) \<Rightarrow> [(path, content)]
      | Some (Dir es) \<Rightarrow> walk_files path (Dir es)
      | None \<Rightarrow> [])"

definition met_files :: "filesystem \<Rightarrow> string list \<Rightarrow> file_list" where
  "met_files fs roots = concat (map (include_files fs) roots)"

fun forget :: "outcome \<Rightarrow> outcome" where
  "forget (Done st) = Done (st\<lparr>entered := []\<rparr>)"
| "forget (Raised e st) = Raised e (st\<lparr>entered := []\<rparr>)"


section \<open>Example file systems\<close>

text \<open>
  A tree under \<open>server\<close> with an excluded directory, an excluded file, an empty
  directory, an unreadable file in an excluded directory and an archive of an earlier run;
  the same tree listed in another order; and a root with an excluded path that is a
  directory.
\<close>

definition demo_server :: fsnode where
  "demo_server =
     Dir [(''index.ts'', File (Some ''abc'')),
          (''tests'', Dir [(''foo.ts'', File (Some ''t''))]),
          (''app.ts'', File (Some ''xy'')),
          (''notes.txt'', File (Some ''n'')),
          (''lib'', Dir [(''a.ts'', File (Some ''a'')), (''empty'', Dir [])]),
          (''dist'', Dir [(''b.js'', File None)]),
          (''clean-machine-core.zip'', File (Some ''PK''))]"

definition demo_fs :: "string \<Rightarrow> fsnode option" where
  "demo_fs p =
     (if p = ''server'' then Some demo_server
      else if p = ''package.json'' then Some (File (Some ''{}''))
      else None)"

definition demo_final :: run_state where
  "demo_final =
     \<lparr>archive =
        [\<lparr>filename = ''server/index.ts'', arcname = ''server/index.ts'', data = ''abc''\<rparr>,
         \<lparr>filename = ''server/app.ts'', arcname = ''server/app.ts'', data = ''xy''\<rparr>,
         \<lparr>filename = ''server/lib/a.ts'', arcname = ''server/lib/a.ts'', data = ''a''\<rparr>,
         \<lparr>filename = ''package.json'', arcname = ''package.json'', data = ''{}''\<rparr>],
      console =
        [''Adding file: server/index.ts'', ''Adding file: server/app.ts'',
         ''Adding file: server/lib/a.ts'', ''Adding file: package.json'',
         [CHR 0x0A] @ ''Created clean-machine-core.zip (0.12 MB)''],
      entered = [''server'', ''server/lib'', ''server/lib/empty'']\<rparr>"

definition demo_server2 :: fsnode where
  "demo_server2 =
     Dir [(''clean-machine-core.zip'', File (Some ''PK'')),
          (''dist'', Dir [(''b.js'', File None)]),
          (''lib'', Dir [(''empty'', Dir []), (''a.ts'', File (Some ''a''))]),
          (''notes.txt'', File (Some ''n'')),
          (''app.ts'', File (Some ''xy'')),
          (''tests'', Dir [(''foo.ts'', File (Some ''t''))]),
          (''index.ts'', File (Some ''abc''))]"

definition demo_fs2 :: "string \<Rightarrow> fsnode option" where
  "demo_fs2 p =
     (if p = ''server'' then Some demo_server2
      else if p = ''package.json'' then Some (File (Some ''{}''))
      else None)"

definition demo_final2 :: run_state where
  "demo_final2 =
     \<lparr>archive =
        [\<lparr>filename = ''server/app.ts'', arcname = ''server/app.ts'', data = ''xy''\<rparr>,
         \<lparr>filename = ''server/index.ts'', arcname = ''server/index.ts'', data = ''abc''\<rparr>,
         \<lparr>filename = ''server/lib/a.ts'', arcname = ''server/lib/a.ts'', data = ''a''\<rparr>,
         \<lparr>filename = ''package.json'', arcname = ''package.json'', data = ''{}''\<rparr>],
      console =
        [''Adding file: server/app.ts'', ''Adding file: server/index.ts'',
         ''Adding file: server/lib/a.ts'', ''Adding file: package.json'',
         [CHR 0x0A] @ ''Created clean-machine-core.zip (0.12 MB)''],
      entered = [''server'', ''server/lib'', ''server/lib/empty'']\<rparr>"

definition cfg_fs :: "string \<Rightarrow> fsnode option" where
  "cfg_fs p =
     (if p = ''vite.config.ts'' then Some (Dir [(''a.ts'', File (Some ''x''))]) else None)"


section \<open>Lemmas\<close>


subsection \<open>Substring containment\<close>

lemma str_in_iff: "str_in pat s \<longleftrightarrow> (\<exists>ps ss. s = ps @ pat @ ss)"
proof (induction s)
  case Nil
  show ?case by auto
next
  case (Cons c cs)
  show ?case
  proof
    assume "str_in pat (c # cs)"
    then consider "prefix pat (c # cs)" | "str_in pat cs" by auto
    then show "\<exists>ps ss. c # cs = ps @ pat @ ss"
    proof cases
      case 1
      then obtain ss where "c # cs = pat @ ss" by (auto simp: prefix_def)
      then have "c # cs = [] @ pat @ ss" by simp
      then show ?thesis by blast
    next
      case 2
      with Cons.IH obtain ps ss where "cs = ps @ pat @ ss" by blast
      then have "c # cs = (c # ps) @ pat @ ss" by simp
      then show ?thesis by blast
    qed
  next
    assume "\<exists>ps ss. c # cs = ps @ pat @ ss"
    then obtain ps ss where eq: "c # cs = ps @ pat @ ss" by blast
    show "str_in pat (c # cs)"
    proof (cases ps)
      case Nil
      with eq have "prefix pat (c # cs)" by (simp add: prefix_def)
      then show ?thesis by simp
    next
      case (Cons a as)
      with eq have "cs = as @ pat @ ss" by simp
      with Cons.IH have "str_in pat cs" by blast
      then show ?thesis by simp
    qed
  qed
qed

lemma should_exclude_with_iff:
  "should_exclude_with rules p \<longleftrightarrow> (\<exists>pat \<in> set rules. str_in pat p)"
  by (induction rules) auto


subsection \<open>The walk is the flattened loop\<close>

lemma add_files_paths: "add_files root files st = add_paths (at_root root files) st"
  by (induction files arbitrary: st) (auto simp: at_root_def split: outcome.splits)

lemma add_paths_append:
  "add_paths (xs @ ys) st =
     (case add_paths xs st of Raised e st' \<Rightarrow> Raised e st' | Done st' \<Rightarrow> add_paths ys st')"
  by (induction xs arbitrary: st) (auto split: outcome.splits)

lemma forget_add_file:
  "st\<lparr>entered := []\<rparr> = st'\<lparr>entered := []\<rparr> \<Longrightarrow>
   forget (add_file p c st) = forget (add_file p c st')"
proof -
  assume eq: "st\<lparr>entered := []\<rparr> = st'\<lparr>entered := []\<rparr>"
  have a: "archive st = archive st'" and b: "console st = console st'"
    using arg_cong [OF eq, of archive] arg_cong [OF eq, of console] by simp_all
  show ?thesis
    by (cases c) (simp_all add: add_file_def zipf_write_def py_print_def a b eq)
qed

lemma forget_eq_cases:
  assumes "forget a = forget b"
  shows "(\<exists>s s'. a = Done s \<and> b = Done s' \<and> s\<lparr>entered := []\<rparr> = s'\<lparr>entered := []\<rparr>) \<or>
         (\<exists>e s s'. a = Raised e s \<and> b = Raised e s' \<and> s\<lparr>entered := []\<rparr> = s'\<lparr>entered := []\<rparr>)"
  using assms by (cases a; cases b) simp_all

lemma forget_add_paths:
  "st\<lparr>entered := []\<rparr> = st'\<lparr>entered := []\<rparr> \<Longrightarrow>
   forget (add_paths xs st) = forget (add_paths xs st')"
proof (induction xs arbitrary: st st')
  case Nil
  then show ?case by simp
next
  case (Cons x xs)
  obtain p c where x: "x = (p, c)" by (cases x)
  from forget_eq_cases [OF forget_add_file [OF Cons.prems, of p c]]
  show ?case
  proof (elim disjE exE conjE)
    fix s s'
    assume "add_file p c st = Done s" "add_file p c st' = Done s'"
      "s\<lparr>entered := []\<rparr> = s'\<lparr>entered := []\<rparr>"
    then show ?thesis using Cons.IH [of s s'] by (simp add: x)
  next
    fix e s s'
    assume "add_file p c st = Raised e s" "add_file p c st' = Raised e s'"
      "s\<lparr>entered := []\<rparr> = s'\<lparr>entered := []\<rparr>"
    then show ?thesis by (simp add: x)
  qed
qed

lemma forget_bind:
  assumes "forget a = forget b"
    and "\<And>s s'. a = Done s \<Longrightarrow> b = Done s' \<Longrightarrow> s\<lparr>entered := []\<rparr> = s'\<lparr>entered := []\<rparr>
           \<Longrightarrow> forget (f s) = forget (g s')"
  shows "forget (case a of Raised e s \<Rightarrow> Raised e s | Done s \<Rightarrow> f s) =
         forget (case b of Raised e s \<Rightarrow> Raised e s | Done s \<Rightarrow> g s)"
  using forget_eq_cases [OF assms(1)] assms(2) by (elim disjE exE conjE) simp_all

lemma forget_walk:
  "forget (walk root t st) = forget (add_paths (walk_files root t) st)"
  "forget (walk_dirs root ds st) =
     forget (add_paths (concat (map (\<lambda>(d, sub). walk_files (path_join root d) sub) ds)) st)"
proof (induction root t st and root ds st rule: walk_walk_dirs.induct)
  case (1 root c st)
  then show ?case by simp
next
  case (2 root es st)
  let ?dirs = "filter (\<lambda>(d, sub). \<not> should_exclude (path_join root d)) (scan_dirs es)"
  let ?rest = "concat (map (\<lambda>(d, sub). walk_files (path_join root d) sub) ?dirs)"
  let ?here = "at_root root (scan_nondirs es)"
  have "forget (case add_paths ?here (st\<lparr>entered := entered st @ [root]\<rparr>) of
                  Raised e s \<Rightarrow> Raised e s | Done s \<Rightarrow> walk_dirs root ?dirs s) =
        forget (case add_paths ?here st of
                  Raised e s \<Rightarrow> Raised e s | Done s \<Rightarrow> add_paths ?rest s)"
  proof (rule forget_bind)
    show "forget (add_paths ?here (st\<lparr>entered := entered st @ [root]\<rparr>)) =
          forget (add_paths ?here st)"
      by (rule forget_add_paths) simp
  next
    fix s s'
    assume d: "add_paths ?here (st\<lparr>entered := entered st @ [root]\<rparr>) = Done s"
      and eq: "s\<lparr>entered := []\<rparr> = s'\<lparr>entered := []\<rparr>"
    have "forget (walk_dirs root ?dirs s) = forget (add_paths ?rest s)"
      using "2.IH" [OF refl refl] d by (simp add: add_files_paths)
    also have "\<dots> = forget (add_paths ?rest s')"
      by (rule forget_add_paths [OF eq])
    finally show "forget (walk_dirs root ?dirs s) = forget (add_paths ?rest s')" .
  qed
  then show ?case
    by (simp add: add_files_paths add_paths_append Let_def)
next
  case (3 root st)
  then show ?case by simp
next
  case (4 root d sub dirs st)
  let ?rest = "concat (map (\<lambda>(d, sub). walk_files (path_join root d) sub) dirs)"
  have "forget (case walk (path_join root d) sub st of
                  Raised e s \<Rightarrow> Raised e s | Done s \<Rightarrow> walk_dirs root dirs s) =
        forget (case add_paths (walk_files (path_join root d) sub) st of
                  Raised e s \<Rightarrow> Raised e s | Done s \<Rightarrow> add_paths ?rest s)"
  proof (rule forget_bind)
    show "forget (walk (path_join root d) sub st) =
          forget (add_paths (walk_files (path_join root d) sub) st)"
      by (rule "4.IH"(1))
  next
    fix s s'
    assume d: "walk (path_join root d) sub st = Done s"
      and eq: "s\<lparr>entered := []\<rparr> = s'\<lparr>entered := []\<rparr>"
    have "forget (walk_dirs root dirs s) = forget (add_paths ?rest s)"
      by (rule "4.IH"(2) [OF d])
    also have "\<dots> = forget (add_paths ?rest s')"
      by (rule forget_add_paths [OF eq])
    finally show "forget (walk_dirs root dirs s) = forget (add_paths ?rest s')" .
  qed
  then show ?case
    by (simp add: add_paths_append)
qed

lemma forget_add_include:
  "forget (add_include fs r st) = forget (add_paths (include_files fs r) st)"
proof (cases "fs r")
  case None
  then show ?thesis by (simp add: add_include_def include_files_def)
next
  case (Some t)
  show ?thesis
  proof (cases t)
    case (File c)
    with Some show ?thesis
      by (simp add: add_include_def include_files_def split: outcome.splits)
  next
    case (Dir es)
    with Some forget_walk(1) [of r "Dir es" st] show ?thesis
      by (simp add: add_include_def include_files_def)
  qed
qed

lemma forget_add_includes:
  "forget (add_includes fs roots st) =
   forget (add_paths (concat (map (include_files fs) roots)) st)"
proof (induction roots arbitrary: st)
  case Nil
  then show ?case by simp
next
  case (Cons r roots)
  let ?rest = "concat (map (include_files fs) roots)"
  have "forget (case add_include fs r st of
                  Raised e s \<Rightarrow> Raised e s | Done s \<Rightarrow> add_includes fs roots s) =
        forget (case add_paths (include_files fs r) st of
                  Raised e s \<Rightarrow> Raised e s | Done s \<Rightarrow> add_paths ?rest s)"
  proof (rule forget_bind)
    show "forget (add_include fs r st) = forget (add_paths (include_files fs r) st)"
      by (rule forget_add_include)
  next
    fix s s' :: run_state
    assume eq: "s\<lparr>entered := []\<rparr> = s'\<lparr>entered := []\<rparr>"
    have "forget (add_includes fs roots s) = forget (add_paths ?rest s)"
      by (rule Cons.IH)
    also have "\<dots> = forget (add_paths ?rest s')"
      by (rule forget_add_paths [OF eq])
    finally show "forget (add_includes fs roots s) = forget (add_paths ?rest s')" .
  qed
  then show ?case by (simp add: add_paths_append)
qed

lemma forget_same:
  assumes "forget a = forget b"
  shows "archive (state_of a) = archive (state_of b)"
    and "console (state_of a) = console (state_of b)"
    and "(\<exists>s. a = Done s) \<longleftrightarrow> (\<exists>s. b = Done s)"
proof -
  from forget_eq_cases [OF assms]
  obtain s s' where eq: "s\<lparr>entered := []\<rparr> = s'\<lparr>entered := []\<rparr>"
    and st: "state_of a = s" "state_of b = s'"
    and dn: "(\<exists>s. a = Done s) \<longleftrightarrow> (\<exists>s. b = Done s)"
    by (elim disjE exE conjE) simp_all
  from arg_cong [OF eq, of archive] st show "archive (state_of a) = archive (state_of b)" by simp
  from arg_cong [OF eq, of console] st show "console (state_of a) = console (state_of b)" by simp
  from dn show "(\<exists>s. a = Done s) \<longleftrightarrow> (\<exists>s. b = Done s)" .
qed


subsection \<open>What the flattened loop builds\<close>

lemma add_file_cases:
  "add_file p c st =
     (if should_exclude p then Done st
      else case c of
             None \<Rightarrow> Raised (OSError p) (py_print (''Adding file: '' @ p) st)
           | Some bytes \<Rightarrow>
               Done (st\<lparr>archive := archive st @ [\<lparr>filename = p, arcname = p, data = bytes\<rparr>],
                        console := console st @ [''Adding file: '' @ p]\<rparr>))"
  by (simp add: add_file_def zipf_write_def py_print_def split: option.splits)

lemma archive_add_paths:
  "archive (state_of (add_paths xs st)) =
   archive st @ entries (takeWhile readable (included xs))"
proof (induction xs arbitrary: st)
  case Nil
  then show ?case by (simp add: entries_def included_def)
next
  case (Cons x xs)
  obtain p c where x: "x = (p, c)" by (cases x)
  show ?case
  proof (cases "should_exclude p")
    case True
    then show ?thesis using Cons.IH [of st]
      by (simp add: x add_file_cases included_def)
  next
    case False
    show ?thesis
    proof (cases c)
      case None
      with False show ?thesis
        by (simp add: x add_file_cases included_def readable_def entries_def py_print_def)
    next
      case (Some bytes)
      with False show ?thesis
        using Cons.IH [of "st\<lparr>archive := archive st @ [\<lparr>filename = p, arcname = p, data = bytes\<rparr>],
                        console := console st @ [''Adding file: '' @ p]\<rparr>"]
        by (simp add: x add_file_cases included_def readable_def entries_def)
    qed
  qed
qed

lemma add_paths_Done_iff:
  "(\<exists>st'. add_paths xs st = Done st') \<longleftrightarrow> list_all readable (included xs)"
proof (induction xs arbitrary: st)
  case Nil
  then show ?case by (simp add: included_def)
next
  case (Cons x xs)
  obtain p c where x: "x = (p, c)" by (cases x)
  show ?case
  proof (cases "should_exclude p")
    case True
    then show ?thesis using Cons.IH [of st]
      by (simp add: x add_file_cases included_def)
  next
    case False
    show ?thesis
    proof (cases c)
      case None
      with False show ?thesis
        by (simp add: x add_file_cases included_def readable_def)
    next
      case (Some bytes)
      with False show ?thesis
        using Cons.IH [of "st\<lparr>archive := archive st @ [\<lparr>filename = p, arcname = p, data = bytes\<rparr>],
                        console := console st @ [''Adding file: '' @ p]\<rparr>"]
        by (simp add: x add_file_cases included_def readable_def)
    qed
  qed
qed



subsection \<open>Paths in a well-formed tree\<close>

lemma path_join_wf: "ok_root r \<Longrightarrow> wf_name n \<Longrightarrow> path_join r n = r @ ''/'' @ n"
  by (cases n) (auto simp: path_join_def ok_root_def wf_name_def)

lemma ok_root_join: "ok_root r \<Longrightarrow> wf_name n \<Longrightarrow> ok_root (path_join r n)"
  by (simp add: path_join_wf) (auto simp: ok_root_def wf_name_def dest: last_in_set)

lemma str_in_mid: "str_in d (a @ d @ b)"
  by (auto simp: str_in_iff)

lemma str_in_trans: "str_in a b \<Longrightarrow> str_in b c \<Longrightarrow> str_in a c"
proof -
  assume "str_in a b" "str_in b c"
  then obtain p s p' s' where "b = p @ a @ s" "c = p' @ b @ s'"
    by (auto simp: str_in_iff)
  then have "c = (p' @ p) @ a @ (s @ s')" by simp
  then show ?thesis unfolding str_in_iff by blast
qed

lemma should_exclude_mono: "should_exclude d \<Longrightarrow> str_in d p \<Longrightarrow> should_exclude p"
  by (auto simp: should_exclude_def should_exclude_with_iff intro: str_in_trans)

lemma wf_node_dirs:
  "wf_node (Dir es) \<Longrightarrow> (d, sub) \<in> set (scan_dirs es) \<Longrightarrow> wf_name d \<and> wf_node sub"
  by (auto simp: scan_dirs_def list_all_iff)

lemma scan_nondirs_set: "(n, c) \<in> set (scan_nondirs es) \<longleftrightarrow> (n, File c) \<in> set es"
  by (induction es rule: scan_nondirs.induct) auto

lemma wf_node_nondirs:
  "wf_node (Dir es) \<Longrightarrow> (n, c) \<in> set (scan_nondirs es) \<Longrightarrow> wf_name n"
  by (auto simp: scan_nondirs_set list_all_iff)

lemma files_under_prefix:
  "wf_node t \<Longrightarrow> ok_root r \<Longrightarrow> (p, c) \<in> set (files_under r t) \<Longrightarrow>
   \<exists>rest. p = r @ ''/'' @ rest \<and> rest \<noteq> []"
proof (induction r t arbitrary: p c rule: files_under.induct)
  case (1 root c')
  then show ?case by simp
next
  case (2 root es)
  from "2.prems"(3) consider
    (here) n where "(n, c) \<in> set (scan_nondirs es)" "p = path_join root n"
    | (below) d sub where "(d, sub) \<in> set (scan_dirs es)"
        "(p, c) \<in> set (files_under (path_join root d) sub)"
    by (auto simp: at_root_def)
  then show ?case
  proof cases
    case here
    with wf_node_nondirs [OF "2.prems"(1) here(1)] "2.prems"(2)
    show ?thesis by (auto simp: path_join_wf wf_name_def)
  next
    case below
    from wf_node_dirs [OF "2.prems"(1) below(1)] have wd: "wf_name d" and ws: "wf_node sub"
      by simp_all
    from "2.IH" [OF below(1) _ ws ok_root_join [OF "2.prems"(2) wd] below(2)]
    obtain rest where "p = path_join root d @ ''/'' @ rest" by auto
    then show ?thesis using "2.prems"(2) wd by (simp add: path_join_wf)
  qed
qed

lemma included_append: "included (xs @ ys) = included xs @ included ys"
  by (simp add: included_def)

lemma included_concat: "included (concat xss) = concat (map included xss)"
  by (induction xss) (simp_all add: included_append, simp add: included_def)

lemma included_empty_iff: "included xs = [] \<longleftrightarrow> (\<forall>(p, c) \<in> set xs. should_exclude p)"
  by (auto simp: included_def filter_empty_conv)

lemma included_under_excluded:
  assumes "wf_node t" "ok_root d" "should_exclude d"
  shows "included (files_under d t) = []"
proof -
  have "should_exclude p" if "(p, c) \<in> set (files_under d t)" for p c
  proof -
    from files_under_prefix [OF assms(1,2) that] obtain rest where "p = [] @ d @ ''/'' @ rest"
      by auto
    then have "str_in d p" by (metis str_in_mid)
    with assms(3) show ?thesis by (rule should_exclude_mono)
  qed
  then show ?thesis by (auto simp: included_empty_iff)
qed

lemma concat_map_filter_eq:
  assumes "\<And>x. x \<in> set xs \<Longrightarrow> P x \<Longrightarrow> f x = g x"
    and "\<And>x. x \<in> set xs \<Longrightarrow> \<not> P x \<Longrightarrow> g x = []"
  shows "concat (map f (filter P xs)) = concat (map g xs)"
  using assms by (induction xs) auto

lemma included_walk_files:
  "wf_node t \<Longrightarrow> ok_root r \<Longrightarrow> included (walk_files r t) = included (files_under r t)"
proof (induction r t rule: files_under.induct)
  case (1 root c)
  then show ?case by simp
next
  case (2 root es)
  let ?P = "\<lambda>(d, sub). \<not> should_exclude (path_join root d)"
  let ?f = "\<lambda>x. included (walk_files (path_join root (fst x)) (snd x))"
  let ?g = "\<lambda>x. included (files_under (path_join root (fst x)) (snd x))"
  have eq: "concat (map ?f (filter ?P (scan_dirs es))) = concat (map ?g (scan_dirs es))"
  proof (rule concat_map_filter_eq)
    fix x assume x: "x \<in> set (scan_dirs es)" and "?P x"
    obtain d sub where xd: "x = (d, sub)" by (cases x)
    from wf_node_dirs [OF "2.prems"(1), of d sub] x
    have "wf_name d" "wf_node sub" unfolding xd by blast+
    from "2.IH" [OF x xd [symmetric] this(2) ok_root_join [OF "2.prems"(2) this(1)]]
    show "?f x = ?g x"
      unfolding xd fst_conv snd_conv .
  next
    fix x assume x: "x \<in> set (scan_dirs es)" and n: "\<not> ?P x"
    obtain d sub where xd: "x = (d, sub)" by (cases x)
    from wf_node_dirs [OF "2.prems"(1), of d sub] x
    have "wf_name d" "wf_node sub" unfolding xd by blast+
    moreover from n have "should_exclude (path_join root d)" unfolding xd by simp
    ultimately show "?g x = []"
      unfolding xd fst_conv snd_conv
      using included_under_excluded [of sub "path_join root d"] ok_root_join [OF "2.prems"(2)]
      by blast
  qed
  have "included (walk_files root (Dir es)) =
        included (at_root root (scan_nondirs es)) @ concat (map ?f (filter ?P (scan_dirs es)))"
    by (simp add: included_append included_concat comp_def case_prod_beta)
  also have "\<dots> = included (at_root root (scan_nondirs es)) @ concat (map ?g (scan_dirs es))"
    by (simp only: eq)
  also have "\<dots> = included (files_under root (Dir es))"
    by (simp add: included_append included_concat comp_def case_prod_beta)
  finally show ?case .
qed

lemma walk_files_subset: "set (walk_files r t) \<subseteq> set (files_under r t)"
proof (induction r t rule: files_under.induct)
  case (1 root c)
  then show ?case by simp
next
  case (2 root es)
  show ?case
  proof
    fix x assume "x \<in> set (walk_files root (Dir es))"
    then consider "x \<in> set (at_root root (scan_nondirs es))"
      | d sub where "(d, sub) \<in> set (scan_dirs es)" "x \<in> set (walk_files (path_join root d) sub)"
      by auto
    then show "x \<in> set (files_under root (Dir es))"
    proof cases
      case 1
      then show ?thesis by simp
    next
      case 2
      with "2.IH" [of "(d, sub)" d sub] have "x \<in> set (files_under (path_join root d) sub)"
        by auto
      with 2(1) show ?thesis by force
    qed
  qed
qed


subsection \<open>Paths of a well-formed tree are distinct\<close>

lemma distinct_concat_disjoint:
  assumes "distinct rs"
    and "\<And>r. r \<in> set rs \<Longrightarrow> distinct (f r)"
    and "\<And>r r'. r \<in> set rs \<Longrightarrow> r' \<in> set rs \<Longrightarrow> r \<noteq> r' \<Longrightarrow> set (f r) \<inter> set (f r') = {}"
  shows "distinct (concat (map f rs))"
  using assms
proof (induction rs)
  case Nil
  then show ?case by simp
next
  case (Cons r rs)
  have "distinct (concat (map f rs))"
    using Cons.prems by (intro Cons.IH) auto
  moreover have "distinct (f r)" using Cons.prems(2) by simp
  moreover have "set (f r) \<inter> set (f r') = {}" if "r' \<in> set rs" for r'
    using Cons.prems(3) Cons.prems(1) that by (metis distinct.simps(2) list.set_intros(1,2))
  ultimately show ?case by auto
qed

lemma first_component:
  assumes "CHR ''/'' \<notin> set a" "CHR ''/'' \<notin> set b" "a @ ''/'' @ x = b @ ''/'' @ y"
  shows "a = b"
proof -
  have tw: "takeWhile (\<lambda>c. c \<noteq> CHR ''/'') (u @ ''/'' @ v) = u" if "CHR ''/'' \<notin> set u" for u v
  proof -
    have "takeWhile (\<lambda>c. c \<noteq> CHR ''/'') (u @ ''/'' @ v) =
          u @ takeWhile (\<lambda>c. c \<noteq> CHR ''/'') (''/'' @ v)"
      using that by (intro takeWhile_append2) auto
    then show ?thesis by simp
  qed
  from tw [OF assms(1), of x] tw [OF assms(2), of y] assms(3) show ?thesis by simp
qed

lemma scan_dirs_fst_distinct: "distinct (map fst es) \<Longrightarrow> distinct (map fst (scan_dirs es))"
  by (simp add: scan_dirs_def distinct_map_filter)

lemma scan_nondirs_fst_distinct: "distinct (map fst es) \<Longrightarrow> distinct (map fst (scan_nondirs es))"
  by (induction es rule: scan_nondirs.induct) (force simp: scan_nondirs_set)+

lemma scan_dirs_set: "(d, sub) \<in> set (scan_dirs es) \<longleftrightarrow> (d, sub) \<in> set es \<and> is_dir sub"
  by (auto simp: scan_dirs_def)

lemma distinct_files_under:
  "wf_node t \<Longrightarrow> ok_root r \<Longrightarrow> distinct (map fst (files_under r t))"
proof (induction r t rule: files_under.induct)
  case (1 root c)
  then show ?case by simp
next
  case (2 root es)
  from "2.prems"(1) have des: "distinct (map fst es)" by simp
  let ?A = "map fst (at_root root (scan_nondirs es))"
  let ?f = "\<lambda>x. map fst (files_under (path_join root (fst x)) (snd x))"
  let ?B = "concat (map ?f (scan_dirs es))"
  have shape: "\<exists>rest. p = root @ ''/'' @ fst x @ ''/'' @ rest"
    if "x \<in> set (scan_dirs es)" "p \<in> set (?f x)" for x p
  proof -
    obtain d sub where xd: "x = (d, sub)" by (cases x)
    from wf_node_dirs [OF "2.prems"(1), of d sub] that(1)
    have w: "wf_name d" "wf_node sub" unfolding xd by blast+
    from that(2) obtain c where "(p, c) \<in> set (files_under (path_join root d) sub)"
      unfolding xd by auto
    from files_under_prefix [OF w(2) ok_root_join [OF "2.prems"(2) w(1)] this]
    show ?thesis unfolding xd using path_join_wf [OF "2.prems"(2) w(1)] by auto
  qed
  have A: "distinct ?A"
  proof -
    have "?A = map (\<lambda>n. root @ ''/'' @ n) (map fst (scan_nondirs es))"
      using wf_node_nondirs [OF "2.prems"(1)] path_join_wf [OF "2.prems"(2)]
      by (auto simp: at_root_def)
    moreover have "distinct (map (\<lambda>n. root @ ''/'' @ n) (map fst (scan_nondirs es)))"
      using scan_nondirs_fst_distinct [OF des] by (simp add: distinct_map inj_on_def)
    ultimately show ?thesis by simp
  qed
  have B: "distinct ?B"
  proof (rule distinct_concat_disjoint)
    show "distinct (scan_dirs es)"
      using scan_dirs_fst_distinct [OF des] by (rule distinct_map [THEN iffD1, THEN conjunct1])
  next
    fix x assume x: "x \<in> set (scan_dirs es)"
    obtain d sub where xd: "x = (d, sub)" by (cases x)
    from wf_node_dirs [OF "2.prems"(1), of d sub] x
    have w: "wf_name d" "wf_node sub" unfolding xd by blast+
    from "2.IH" [OF x xd [symmetric] w(2) ok_root_join [OF "2.prems"(2) w(1)]]
    show "distinct (?f x)" unfolding xd fst_conv snd_conv .
  next
    fix x x' assume x: "x \<in> set (scan_dirs es)" "x' \<in> set (scan_dirs es)" "x \<noteq> x'"
    have "inj_on fst (set (scan_dirs es))"
      using scan_dirs_fst_distinct [OF des] by (simp add: distinct_map)
    with x have "fst x \<noteq> fst x'" by (auto dest: inj_onD)
    moreover have "CHR ''/'' \<notin> set (fst x)" "CHR ''/'' \<notin> set (fst x')"
      using wf_node_dirs [OF "2.prems"(1), of "fst x" "snd x"]
        wf_node_dirs [OF "2.prems"(1), of "fst x'" "snd x'"] x
      by (auto simp: wf_name_def)
    ultimately have ne: "fst x \<noteq> fst x'" and sl: "CHR ''/'' \<notin> set (fst x)" "CHR ''/'' \<notin> set (fst x')"
      by blast+
    show "set (?f x) \<inter> set (?f x') = {}"
    proof (rule ccontr)
      assume "set (?f x) \<inter> set (?f x') \<noteq> {}"
      then obtain p where p: "p \<in> set (?f x)" "p \<in> set (?f x')" by blast
      from shape [OF x(1) p(1)] shape [OF x(2) p(2)]
      obtain rest rest' where "p = root @ ''/'' @ fst x @ ''/'' @ rest"
        "p = root @ ''/'' @ fst x' @ ''/'' @ rest'" by blast
      then have "fst x @ ''/'' @ rest = fst x' @ ''/'' @ rest'" by simp
      from first_component [OF sl this] ne show False by simp
    qed
  qed
  have AB: "set ?A \<inter> set ?B = {}"
  proof (rule ccontr)
    assume "set ?A \<inter> set ?B \<noteq> {}"
    then obtain p where pA: "p \<in> set ?A" and pB: "p \<in> set ?B" by auto
    from pA obtain n c where n: "(n, c) \<in> set (scan_nondirs es)" "p = path_join root n"
      by (auto simp: at_root_def)
    from wf_node_nondirs [OF "2.prems"(1) n(1)] have wn: "wf_name n" .
    from pB obtain x where x: "x \<in> set (scan_dirs es)" "p \<in> set (?f x)" by auto
    from shape [OF x] obtain rest where "p = root @ ''/'' @ fst x @ ''/'' @ rest" by blast
    with n(2) path_join_wf [OF "2.prems"(2) wn] have "n = fst x @ ''/'' @ rest" by simp
    with wn show False by (auto simp: wf_name_def)
  qed
  have "map fst (files_under root (Dir es)) = ?A @ ?B"
    by (simp add: map_concat comp_def case_prod_beta)
  with A B AB show ?case by (simp only: distinct_append)
qed


subsection \<open>The whole run\<close>

lemma entries_simps:
  "entries [] = []"
  "entries ((p, Some bytes) # xs) = \<lparr>filename = p, arcname = p, data = bytes\<rparr> # entries xs"
  "entries ((p, None) # xs) = entries xs"
  by (simp_all add: entries_def)

lemma entries_set:
  "e \<in> set (entries xs) \<longleftrightarrow>
   (\<exists>p bytes. (p, Some bytes) \<in> set xs \<and> e = \<lparr>filename = p, arcname = p, data = bytes\<rparr>)"
proof (induction xs)
  case Nil
  then show ?case by (simp add: entries_simps)
next
  case (Cons x xs)
  obtain p c where x: "x = (p, c)" by (cases x)
  show ?case using Cons.IH by (cases c) (auto simp: x entries_simps)
qed

lemma takeWhile_all: "list_all P xs \<Longrightarrow> takeWhile P xs = xs"
  by (induction xs) auto

lemma run_archive:
  "archive (state_of (create_zip_with roots fs z)) =
   entries (takeWhile readable (included (met_files fs roots)))"
proof -
  have "archive (state_of (create_zip_with roots fs z)) =
        archive (state_of (add_includes fs roots init_state))"
    by (simp add: create_zip_with_def py_print_def split: outcome.splits)
  also have "\<dots> = archive (state_of (add_paths (met_files fs roots) init_state))"
    unfolding met_files_def by (rule forget_same(1) [OF forget_add_includes])
  also have "\<dots> = entries (takeWhile readable (included (met_files fs roots)))"
    by (simp add: archive_add_paths init_state_def)
  finally show ?thesis .
qed

lemma run_Done_iff:
  "(\<exists>st. create_zip_with roots fs z = Done st) \<longleftrightarrow>
   list_all readable (included (met_files fs roots))"
proof -
  have "(\<exists>st. create_zip_with roots fs z = Done st) \<longleftrightarrow>
        (\<exists>st. add_includes fs roots init_state = Done st)"
    by (simp add: create_zip_with_def split: outcome.splits)
  also have "\<dots> \<longleftrightarrow> (\<exists>st. add_paths (met_files fs roots) init_state = Done st)"
    unfolding met_files_def by (rule forget_same(3) [OF forget_add_includes])
  also have "\<dots> \<longleftrightarrow> list_all readable (included (met_files fs roots))"
    by (rule add_paths_Done_iff)
  finally show ?thesis .
qed

lemma run_Done_archive:
  assumes "create_zip_with roots fs z = Done st"
  shows "archive st = entries (included (met_files fs roots))"
    and "list_all readable (included (met_files fs roots))"
proof -
  from assms run_Done_iff [of roots fs z]
  show r: "list_all readable (included (met_files fs roots))" by blast
  from run_archive [of roots fs z] assms
  show "archive st = entries (included (met_files fs roots))"
    by (simp add: takeWhile_all [OF r])
qed




lemma add_includes_append:
  "add_includes fs (xs @ ys) st =
     (case add_includes fs xs st of
        Raised e st' \<Rightarrow> Raised e st'
      | Done st' \<Rightarrow> add_includes fs ys st')"
  by (induction xs arbitrary: st) (simp_all split: outcome.splits)

lemma included_set: "(p, c) \<in> set (included xs) \<longleftrightarrow> (p, c) \<in> set xs \<and> \<not> should_exclude p"
  by (auto simp: included_def)

lemma run_entry:
  assumes "e \<in> set (archive (state_of (create_zip_with roots fs z)))"
  shows "\<exists>p bytes. (p, Some bytes) \<in> set (met_files fs roots) \<and> \<not> should_exclude p \<and>
           e = \<lparr>filename = p, arcname = p, data = bytes\<rparr>"
proof -
  from assms obtain p bytes where
    "(p, Some bytes) \<in> set (takeWhile readable (included (met_files fs roots)))"
    and e: "e = \<lparr>filename = p, arcname = p, data = bytes\<rparr>"
    unfolding run_archive entries_set by blast
  then have "(p, Some bytes) \<in> set (included (met_files fs roots))"
    by (auto dest: set_takeWhileD)
  with e show ?thesis by (auto simp: included_set)
qed

lemma zip_filename_excluded: "should_exclude zip_filename"
  by (simp add: zip_filename_def should_exclude_def excludes_def)


subsection \<open>Reachable files\<close>

lemma wf_rootsD: "wf_roots fs roots \<Longrightarrow> r \<in> set roots \<Longrightarrow> fs r = Some t \<Longrightarrow> wf_node t"
  by (auto simp: wf_roots_def list_all_iff)

lemma included_include_files:
  assumes "ok_root r" "\<And>t. fs r = Some t \<Longrightarrow> wf_node t"
  shows "included (include_files fs r) = included (root_files fs r)"
proof (cases "fs r")
  case None
  then show ?thesis by (simp add: include_files_def root_files_def)
next
  case (Some t)
  show ?thesis
  proof (cases t)
    case (File c)
    with Some show ?thesis by (simp add: include_files_def root_files_def)
  next
    case (Dir es)
    with Some assms(2) have "wf_node (Dir es)" by simp
    from included_walk_files [OF this assms(1)] Some Dir show ?thesis
      by (simp add: include_files_def root_files_def)
  qed
qed

lemma included_met_files:
  assumes "wf_roots fs roots" "list_all ok_root roots"
  shows "included (met_files fs roots) = included (reachable fs roots)"
proof -
  have "included (include_files fs r) = included (root_files fs r)" if "r \<in> set roots" for r
    using assms that by (intro included_include_files) (auto simp: list_all_iff dest: wf_rootsD)
  then have eq: "map (\<lambda>r. included (include_files fs r)) roots =
             map (\<lambda>r. included (root_files fs r)) roots"
    by (intro map_cong refl)
  have "included (met_files fs roots) = concat (map (\<lambda>r. included (include_files fs r)) roots)"
    by (simp add: met_files_def included_concat comp_def)
  also have "\<dots> = concat (map (\<lambda>r. included (root_files fs r)) roots)"
    by (simp only: eq)
  also have "\<dots> = included (reachable fs roots)"
    by (simp add: reachable_def included_concat comp_def)
  finally show ?thesis .
qed

lemma include_files_subset: "set (include_files fs r) \<subseteq> set (root_files fs r)"
proof (cases "fs r")
  case None
  then show ?thesis by (simp add: include_files_def root_files_def)
next
  case (Some t)
  show ?thesis
  proof (cases t)
    case (File c)
    with Some show ?thesis by (simp add: include_files_def root_files_def)
  next
    case (Dir es)
    with Some walk_files_subset [of r "Dir es"] show ?thesis
      by (simp add: include_files_def root_files_def)
  qed
qed

lemma met_files_subset: "set (met_files fs roots) \<subseteq> set (reachable fs roots)"
  using include_files_subset [of fs] by (fastforce simp: met_files_def reachable_def)

lemma root_files_shape:
  assumes "ok_root r" "\<And>t. fs r = Some t \<Longrightarrow> wf_node t" "(p, c) \<in> set (root_files fs r)"
  shows "prefix r p"
proof (cases "fs r")
  case None
  with assms(3) show ?thesis by (simp add: root_files_def)
next
  case (Some t)
  show ?thesis
  proof (cases t)
    case (File c')
    with Some assms(3) show ?thesis by (simp add: root_files_def)
  next
    case (Dir es)
    with Some assms(2) have "wf_node (Dir es)" by simp
    from files_under_prefix [OF this assms(1), of p c] Some Dir assms(3)
    show ?thesis by (auto simp: root_files_def)
  qed
qed

lemma distinct_root_files:
  assumes "ok_root r" "\<And>t. fs r = Some t \<Longrightarrow> wf_node t"
  shows "distinct (map fst (root_files fs r))"
proof (cases "fs r")
  case None
  then show ?thesis by (simp add: root_files_def)
next
  case (Some t)
  show ?thesis
  proof (cases t)
    case (File c')
    with Some show ?thesis by (simp add: root_files_def)
  next
    case (Dir es)
    with Some assms(2) have "wf_node (Dir es)" by simp
    from distinct_files_under [OF this assms(1)] Some Dir
    show ?thesis by (simp add: root_files_def)
  qed
qed

lemma distinct_reachable:
  assumes "wf_roots fs roots" "list_all ok_root roots" "distinct roots" "prefix_free roots"
  shows "distinct (map fst (reachable fs roots))"
proof -
  have "distinct (concat (map (\<lambda>r. map fst (root_files fs r)) roots))"
  proof (rule distinct_concat_disjoint)
    show "distinct roots" by (rule assms(3))
  next
    fix r assume "r \<in> set roots"
    with assms(1,2) show "distinct (map fst (root_files fs r))"
      by (intro distinct_root_files) (auto simp: list_all_iff dest: wf_rootsD)
  next
    fix r r' assume r: "r \<in> set roots" "r' \<in> set roots" "r \<noteq> r'"
    show "set (map fst (root_files fs r)) \<inter> set (map fst (root_files fs r')) = {}"
    proof (rule ccontr)
      assume "set (map fst (root_files fs r)) \<inter> set (map fst (root_files fs r')) \<noteq> {}"
      then obtain p c c' where "(p, c) \<in> set (root_files fs r)" "(p, c') \<in> set (root_files fs r')"
        by auto
      then have "prefix r p" "prefix r' p"
        using assms(1,2) r
          root_files_shape [of r fs p c] root_files_shape [of r' fs p c']
          wf_rootsD [OF assms(1), of r] wf_rootsD [OF assms(1), of r']
        by (auto simp: list_all_iff)
      then have "prefix r r' \<or> prefix r' r" by (rule prefix_same_cases)
      with assms(4) r show False by (auto simp: prefix_free_def list_all_iff)
    qed
  qed
  then show ?thesis by (simp add: reachable_def map_concat comp_def)
qed

lemma includes_list_ok:
  "list_all ok_root includes_list" "distinct includes_list" "prefix_free includes_list"
  by (simp_all add: includes_list_def ok_root_def prefix_free_def)

lemma entries_unique:
  "distinct (map fst xs) \<Longrightarrow> (p, Some bytes) \<in> set xs \<Longrightarrow>
   filter (\<lambda>e. arcname e = p) (entries xs) = [\<lparr>filename = p, arcname = p, data = bytes\<rparr>]"
proof (induction xs)
  case Nil
  then show ?case by simp
next
  case (Cons x xs)
  obtain q c where x: "x = (q, c)" by (cases x)
  have none: "filter (\<lambda>e. arcname e = p) (entries xs) = []" if "p \<notin> fst ` set xs"
    using that by (auto simp: filter_empty_conv entries_set) force
  show ?case
  proof (cases "(p, Some bytes) = x")
    case True
    with Cons.prems(1) have "p \<notin> fst ` set xs" by (auto simp: x)
    from none [OF this] True show ?thesis by (auto simp: x entries_simps)
  next
    case False
    with Cons.prems have in_xs: "(p, Some bytes) \<in> set xs" and "distinct (map fst xs)"
      and "q \<noteq> p"
      by (auto simp: x) force
    with Cons.IH show ?thesis by (cases c) (simp_all add: x entries_simps)
  qed
qed

lemma distinct_included: "distinct (map fst xs) \<Longrightarrow> distinct (map fst (included xs))"
  by (simp add: included_def distinct_map_filter)

lemma run_Done_reachable:
  assumes "wf_roots fs includes_list" "create_zip fs z = Done st"
  shows "archive st = entries (included (reachable fs includes_list))"
    and "list_all readable (included (reachable fs includes_list))"
  using run_Done_archive [OF assms(2) [unfolded create_zip_def]]
    included_met_files [OF assms(1) includes_list_ok(1)]
  by simp_all

lemma walk_archive:
  "archive (state_of (walk root t st)) =
   archive st @ entries (takeWhile readable (included (walk_files root t)))"
  using forget_same(1) [OF forget_walk(1) [of root t st]] by (simp add: archive_add_paths)

lemma included_walk_files_empty:
  assumes "included (files_under root t) = []"
  shows "included (walk_files root t) = []"
  using assms walk_files_subset [of root t] unfolding included_empty_iff by blast

lemma set_reachable: "set (reachable fs roots) = (\<Union>r \<in> set roots. set (root_files fs r))"
  by (simp add: reachable_def)

lemma set_entries_cong: "set xs = set ys \<Longrightarrow> set (entries xs) = set (entries ys)"
  by (auto simp: entries_set)

lemma set_included_cong: "set xs = set ys \<Longrightarrow> set (included xs) = set (included ys)"
  by (simp add: included_def)


subsection \<open>Entered directories\<close>

lemma entered_add_file: "entered (state_of (add_file p c st)) = entered st"
  by (simp add: add_file_cases py_print_def split: option.splits)

lemma entered_add_files: "entered (state_of (add_files root files st)) = entered st"
proof (induction files arbitrary: st)
  case Nil
  then show ?case by simp
next
  case (Cons f files)
  obtain n c where f: "f = (n, c)" by (cases f)
  show ?case
  proof (cases "add_file (path_join root n) c st")
    case (Done st')
    with entered_add_file [of "path_join root n" c st] Cons.IH [of st'] show ?thesis
      by (simp add: f)
  next
    case (Raised e st')
    with entered_add_file [of "path_join root n" c st] show ?thesis
      by (simp add: f)
  qed
qed

lemma entered_walk:
  "set (entered (state_of (walk root t st)))
     \<subseteq> set (entered st) \<union> {root} \<union> {d. \<not> should_exclude d}"
  "(\<forall>x \<in> set ds. \<not> should_exclude (path_join root (fst x))) \<longrightarrow>
   set (entered (state_of (walk_dirs root ds st)))
     \<subseteq> set (entered st) \<union> {d. \<not> should_exclude d}"
proof (induction root t st and root ds st rule: walk_walk_dirs.induct)
  case (1 root c st)
  then show ?case by auto
next
  case (2 root es st)
  let ?dirs = "filter (\<lambda>(d, sub). \<not> should_exclude (path_join root d)) (scan_dirs es)"
  let ?st0 = "st\<lparr>entered := entered st @ [root]\<rparr>"
  have kept: "\<forall>x \<in> set ?dirs. \<not> should_exclude (path_join root (fst x))" by auto
  show ?case
  proof (cases "add_files root (scan_nondirs es) ?st0")
    case (Raised e st')
    with entered_add_files [of root "scan_nondirs es" ?st0] show ?thesis
      by (auto simp: Let_def)
  next
    case (Done st')
    with entered_add_files [of root "scan_nondirs es" ?st0]
    have e: "entered st' = entered st @ [root]" by simp
    from "2.IH" [OF refl refl Done] kept
    have "set (entered (state_of (walk_dirs root ?dirs st')))
            \<subseteq> set (entered st') \<union> {d. \<not> should_exclude d}" by blast
    with Done e show ?thesis by (auto simp: Let_def)
  qed
next
  case (3 root st)
  then show ?case by simp
next
  case (4 root d sub dirs st)
  show ?case
  proof
    assume a: "\<forall>x \<in> set ((d, sub) # dirs). \<not> should_exclude (path_join root (fst x))"
    then have nd: "\<not> should_exclude (path_join root d)" by simp
    from "4.IH"(1) nd
    have first: "set (entered (state_of (walk (path_join root d) sub st)))
            \<subseteq> set (entered st) \<union> {d. \<not> should_exclude d}" by auto
    show "set (entered (state_of (walk_dirs root ((d, sub) # dirs) st)))
            \<subseteq> set (entered st) \<union> {d. \<not> should_exclude d}"
    proof (cases "walk (path_join root d) sub st")
      case (Raised e st')
      with first show ?thesis by simp
    next
      case (Done st')
      from "4.IH"(2) [OF Done] a
      have "set (entered (state_of (walk_dirs root dirs st')))
              \<subseteq> set (entered st') \<union> {d. \<not> should_exclude d}" by simp
      with first Done show ?thesis by auto
    qed
  qed
qed

lemma entered_add_include:
  "set (entered (state_of (add_include fs r st)))
     \<subseteq> set (entered st) \<union> {r} \<union> {d. \<not> should_exclude d}"
proof (cases "fs r")
  case None
  then show ?thesis by (auto simp: add_include_def)
next
  case (Some t)
  show ?thesis
  proof (cases t)
    case (File c)
    with Some entered_add_file [of r c st] show ?thesis by (auto simp: add_include_def)
  next
    case (Dir es)
    with Some entered_walk(1) [of r "Dir es" st] show ?thesis by (simp add: add_include_def)
  qed
qed

lemma entered_add_includes:
  "set (entered (state_of (add_includes fs roots st)))
     \<subseteq> set (entered st) \<union> set roots \<union> {d. \<not> should_exclude d}"
proof (induction roots arbitrary: st)
  case Nil
  then show ?case by simp
next
  case (Cons r roots)
  show ?case
  proof (cases "add_include fs r st")
    case (Raised e st')
    with entered_add_include [of fs r st] show ?thesis by auto
  next
    case (Done st')
    with entered_add_include [of fs r st] Cons.IH [of st'] show ?thesis by auto
  qed
qed

lemma entered_run:
  "set (entered (state_of (create_zip_with roots fs z))) \<subseteq> set roots \<union> {d. \<not> should_exclude d}"
proof -
  have "entered (state_of (create_zip_with roots fs z)) =
        entered (state_of (add_includes fs roots init_state))"
    by (simp add: create_zip_with_def py_print_def split: outcome.splits)
  with entered_add_includes [of fs roots init_state] show ?thesis
    by (simp add: init_state_def)
qed

lemma dirs_under_wf:
  "wf_node t \<Longrightarrow> ok_root r \<Longrightarrow> (d, sub) \<in> set (dirs_under r t) \<Longrightarrow>
   wf_node sub \<and> ok_root d \<and> (\<exists>rest. d = r @ ''/'' @ rest)"
proof (induction r t arbitrary: d sub rule: dirs_under.induct)
  case (1 root c)
  then show ?case by simp
next
  case (2 root es)
  from "2.prems"(3) obtain n child where n: "(n, child) \<in> set (scan_dirs es)"
    and d: "(d, sub) = (path_join root n, child) \<or>
            (d, sub) \<in> set (dirs_under (path_join root n) child)"
    by auto
  from wf_node_dirs [OF "2.prems"(1) n] have wn: "wf_name n" and wc: "wf_node child" by simp_all
  note ok = ok_root_join [OF "2.prems"(2) wn]
  note pj = path_join_wf [OF "2.prems"(2) wn]
  from d show ?case
  proof
    assume "(d, sub) = (path_join root n, child)"
    with wc ok pj show ?thesis by auto
  next
    assume "(d, sub) \<in> set (dirs_under (path_join root n) child)"
    from "2.IH" [OF n refl wc ok this] pj show ?thesis by auto
  qed
qed


lemma run_completes_iff:
  assumes "wf_roots fs includes_list"
  shows "(\<exists>st. create_zip fs z = Done st) \<longleftrightarrow>
         list_all readable (included (reachable fs includes_list))"
  using run_Done_iff [of includes_list fs z] included_met_files [OF assms includes_list_ok(1)]
  by (simp add: create_zip_def)


subsection \<open>The example runs\<close>

lemma demo_excl:
  "\<not> should_exclude ''server/index.ts''"
  "should_exclude ''server/tests''"
  "should_exclude ''server/notes.txt''"
  "\<not> should_exclude ''server/lib''"
  "\<not> should_exclude ''server/lib/a.ts''"
  "\<not> should_exclude ''server/lib/empty''"
  "should_exclude ''server/dist''"
  "should_exclude ''server/clean-machine-core.zip''"
  "\<not> should_exclude ''package.json''"
  "\<not> should_exclude ''server/app.ts''"
  by (simp_all add: should_exclude_def excludes_def)

lemma demo_run: "create_zip demo_fs 131072 = Done demo_final"
  by (simp add: create_zip_def create_zip_with_def includes_list_def add_include_def demo_fs_def
      demo_server_def init_state_def scan_dirs_def path_join_def demo_excl
      add_file_def zipf_write_def py_print_def summary_def fmt_2f_def hundredths_def
      zip_filename_def Let_def digit_def demo_final_def)

lemma demo_wf: "wf_roots demo_fs includes_list"
  by (simp add: wf_roots_def includes_list_def demo_fs_def demo_server_def wf_name_def)

lemma demo_reachable:
  "(''server/lib/a.ts'', Some ''a'') \<in> set (reachable demo_fs includes_list)"
  by (simp add: reachable_def includes_list_def root_files_def demo_fs_def demo_server_def
      at_root_def path_join_def scan_dirs_def)

lemma demo_run2: "create_zip demo_fs2 131072 = Done demo_final2"
  by (simp add: create_zip_def create_zip_with_def includes_list_def add_include_def demo_fs2_def
      demo_server2_def init_state_def scan_dirs_def path_join_def demo_excl
      add_file_def zipf_write_def py_print_def summary_def fmt_2f_def hundredths_def
      zip_filename_def Let_def digit_def demo_final2_def)

lemma demo_wf2: "wf_roots demo_fs2 includes_list"
  by (simp add: wf_roots_def includes_list_def demo_fs2_def demo_server2_def wf_name_def)

lemma demo_same_files:
  "\<forall>r \<in> set includes_list. set (root_files demo_fs r) = set (root_files demo_fs2 r)"
  by (simp add: includes_list_def root_files_def demo_fs_def demo_fs2_def demo_server_def
      demo_server2_def at_root_def path_join_def scan_dirs_def insert_commute)

lemma demo_dirs:
  "(''server/tests'', Dir [(''foo.ts'', File (Some ''t''))]) \<in> set (dirs_under ''server'' demo_server)"
  by (simp add: demo_server_def scan_dirs_def path_join_def)


section \<open>Claims\<close>

text \<open>
  C1. For every path string \<open>p\<close>, \<open>should_exclude p\<close> is true exactly when at least one
  of the configured exclusion patterns occurs as a substring anywhere in \<open>p\<close>, that is
  when \<open>p\<close> can be cut into a front part, the pattern and a rest; otherwise it is false.
  The result depends on \<open>p\<close> and the constant rule list only.
\<close>

theorem should_exclude_substring:
  "should_exclude p \<longleftrightarrow> (\<exists>pat \<in> set excludes. \<exists>ps ss. p = ps @ pat @ ss)"
  by (simp add: should_exclude_def should_exclude_with_iff str_in_iff)

theorem should_exclude_substring_witness:
  "should_exclude ''server/tests/foo.ts'' \<and>
   (\<exists>pat \<in> set excludes. \<exists>ps ss. ''server/tests/foo.ts'' = ps @ pat @ ss) \<and>
   \<not> should_exclude ''server/index.ts'' \<and>
   \<not> (\<exists>pat \<in> set excludes. \<exists>ps ss. ''server/index.ts'' = ps @ pat @ ss)"
proof -
  have yes: "should_exclude ''server/tests/foo.ts''"
    by (simp add: should_exclude_def excludes_def)
  have no: "\<not> should_exclude ''server/index.ts''"
    by (simp add: should_exclude_def excludes_def)
  from yes no should_exclude_substring [of "''server/tests/foo.ts''"]
    should_exclude_substring [of "''server/index.ts''"]
  show ?thesis by blast
qed

text \<open>
  C2, as stated, at a root that is a directory with an excluded path. The root
  \<open>vite.config.ts\<close> of the root list contains the pattern \<open>.config\<close>; when it names a
  directory, the walk starts in it without testing its path, so a directory whose path
  satisfies the exclusion predicate is entered.
\<close>

theorem excluded_root_entered:
  "''vite.config.ts'' \<in> set includes_list \<and>
   cfg_fs ''vite.config.ts'' = Some (Dir [(''a.ts'', File (Some ''x''))]) \<and>
   should_exclude ''vite.config.ts'' \<and>
   create_zip cfg_fs 0 =
     Done \<lparr>archive = [], console = [summary 0], entered = [''vite.config.ts'']\<rparr> \<and>
   ''vite.config.ts'' \<in> set (entered (state_of (create_zip cfg_fs 0)))"
proof -
  have x: "should_exclude ''vite.config.ts''" "should_exclude ''vite.config.ts/a.ts''"
    by (simp_all add: should_exclude_def excludes_def)
  have run: "create_zip cfg_fs 0 =
     Done \<lparr>archive = [], console = [summary 0], entered = [''vite.config.ts'']\<rparr>"
    by (simp add: create_zip_def create_zip_with_def includes_list_def add_include_def cfg_fs_def
        init_state_def scan_dirs_def path_join_def add_file_def py_print_def x)
  show ?thesis
    by (simp add: run x) (simp add: includes_list_def cfg_fs_def)
qed

text \<open>
  C2, amended. Over well-formed trees, no file below a directory whose path satisfies the
  exclusion predicate is written to the archive, whether that directory is a root or lies
  below one. Every directory below a root whose path satisfies the predicate is pruned: the
  walk never enters it. (A root directory is entered without a test of its own path.)
\<close>

theorem excluded_dirs_pruned:
  assumes "wf_roots fs includes_list" and "r \<in> set includes_list" and "fs r = Some t"
  shows "(should_exclude r \<longrightarrow>
            (\<forall>(p, c) \<in> set (files_under r t).
               p \<notin> arcname ` set (archive (state_of (create_zip fs zip_size))))) \<and>
         (\<forall>(d, sub) \<in> set (dirs_under r t).
            should_exclude d \<longrightarrow>
              d \<notin> set (entered (state_of (create_zip fs zip_size))) \<and>
              (\<forall>(p, c) \<in> set (files_under d sub).
                 p \<notin> arcname ` set (archive (state_of (create_zip fs zip_size)))))"
proof -
  let ?S = "state_of (create_zip fs zip_size)"
  from assms have wt: "wf_node t" by (rule wf_rootsD)
  from includes_list_ok(1) assms(2) have okr: "ok_root r" by (simp add: list_all_iff)
  have names: "\<not> should_exclude (arcname e)" if "e \<in> set (archive ?S)" for e
    using run_entry [OF that [unfolded create_zip_def]] by auto
  have below: "p \<notin> arcname ` set (archive ?S)"
    if "wf_node u" "ok_root d" "should_exclude d" "(p, c) \<in> set (files_under d u)" for d u p c
  proof -
    from files_under_prefix [OF that(1,2,4)] obtain rest where "p = [] @ d @ ''/'' @ rest"
      by auto
    then have "str_in d p" by (metis str_in_mid)
    with that(3) have "should_exclude p" by (rule should_exclude_mono)
    with names show ?thesis by auto
  qed
  have "d \<notin> set (entered ?S) \<and>
        (\<forall>(p, c) \<in> set (files_under d sub). p \<notin> arcname ` set (archive ?S))"
    if "(d, sub) \<in> set (dirs_under r t)" "should_exclude d" for d sub
  proof -
    from dirs_under_wf [OF wt okr that(1)] obtain rest
      where ws: "wf_node sub" and okd: "ok_root d" and d: "d = r @ ''/'' @ rest" by blast
    have "d \<notin> set includes_list"
    proof
      assume "d \<in> set includes_list"
      moreover have "prefix r d" unfolding d by simp
      ultimately have "r = d"
        using includes_list_ok(3) assms(2) by (auto simp: prefix_free_def list_all_iff)
      with d show False by simp
    qed
    with entered_run [of includes_list fs zip_size] that(2)
    have "d \<notin> set (entered ?S)" by (auto simp: create_zip_def)
    with below [OF ws okd that(2)] show ?thesis by blast
  qed
  with below [OF wt okr] show ?thesis by blast
qed

theorem excluded_dirs_pruned_witness:
  "wf_roots demo_fs includes_list \<and> ''server'' \<in> set includes_list \<and>
   demo_fs ''server'' = Some demo_server \<and>
   (''server/tests'', Dir [(''foo.ts'', File (Some ''t''))]) \<in> set (dirs_under ''server'' demo_server) \<and>
   should_exclude ''server/tests'' \<and>
   (''server/tests/foo.ts'', Some ''t'')
     \<in> set (files_under ''server/tests'' (Dir [(''foo.ts'', File (Some ''t''))])) \<and>
   ''server/tests'' \<notin> set (entered (state_of (create_zip demo_fs 131072))) \<and>
   ''server/tests/foo.ts'' \<notin> arcname ` set (archive (state_of (create_zip demo_fs 131072))) \<and>
   entered (state_of (create_zip demo_fs 131072)) = [''server'', ''server/lib'', ''server/lib/empty'']"
proof -
  have r: "''server'' \<in> set includes_list" by (simp add: includes_list_def)
  have f: "demo_fs ''server'' = Some demo_server" by (simp add: demo_fs_def)
  have u: "(''server/tests/foo.ts'', Some ''t'')
     \<in> set (files_under ''server/tests'' (Dir [(''foo.ts'', File (Some ''t''))]))"
    by (simp add: at_root_def path_join_def scan_dirs_def)
  have e: "entered (state_of (create_zip demo_fs 131072)) =
           [''server'', ''server/lib'', ''server/lib/empty'']"
    by (simp add: demo_run demo_final_def)
  from excluded_dirs_pruned [OF demo_wf r f, of 131072] demo_dirs demo_excl(2) u
  have "''server/tests'' \<notin> set (entered (state_of (create_zip demo_fs 131072))) \<and>
   ''server/tests/foo.ts'' \<notin> arcname ` set (archive (state_of (create_zip demo_fs 131072)))"
    by fast
  with demo_wf r f demo_dirs demo_excl(2) u e show ?thesis by (intro conjI) blast+
qed

text \<open>
  C3. On a completed run over well-formed trees (in each directory the names are distinct,
  non-empty and free of \<open>/\<close>), every file reachable from the root list whose path is not
  excluded has exactly one entry in the archive carrying its path as name: that entry
  holds the file's bytes, and its archive name equals the path it was read from.
\<close>

theorem included_file_once:
  assumes "wf_roots fs includes_list" and "create_zip fs zip_size = Done st"
  shows "\<forall>(p, c) \<in> set (reachable fs includes_list).
           \<not> should_exclude p \<longrightarrow>
           (\<exists>bytes. c = Some bytes \<and>
              filter (\<lambda>e. arcname e = p) (archive st) =
                [\<lparr>filename = p, arcname = p, data = bytes\<rparr>])"
proof (intro ballI, clarify)
  fix p c
  assume pc: "(p, c) \<in> set (reachable fs includes_list)" and n: "\<not> should_exclude p"
  let ?L = "included (reachable fs includes_list)"
  from pc n have inL: "(p, c) \<in> set ?L" by (simp add: included_set)
  from run_Done_reachable(2) [OF assms] inL obtain bytes where c: "c = Some bytes"
    by (auto simp: list_all_iff readable_def)
  have "distinct (map fst ?L)"
    by (intro distinct_included distinct_reachable assms(1) includes_list_ok)
  from entries_unique [OF this inL [unfolded c]] run_Done_reachable(1) [OF assms] c
  show "\<exists>bytes. c = Some bytes \<and>
              filter (\<lambda>e. arcname e = p) (archive st) =
                [\<lparr>filename = p, arcname = p, data = bytes\<rparr>]"
    by simp
qed

theorem included_file_once_witness:
  "wf_roots demo_fs includes_list \<and>
   create_zip demo_fs 131072 = Done demo_final \<and>
   (''server/lib/a.ts'', Some ''a'') \<in> set (reachable demo_fs includes_list) \<and>
   \<not> should_exclude ''server/lib/a.ts'' \<and>
   filter (\<lambda>e. arcname e = ''server/lib/a.ts'') (archive demo_final) =
     [\<lparr>filename = ''server/lib/a.ts'', arcname = ''server/lib/a.ts'', data = ''a''\<rparr>]"
proof -
  have w: "wf_roots demo_fs includes_list" by (rule demo_wf)
  have r: "(''server/lib/a.ts'', Some ''a'') \<in> set (reachable demo_fs includes_list)"
    by (rule demo_reachable)
  from included_file_once [OF w demo_run] r demo_excl(5)
  have "filter (\<lambda>e. arcname e = ''server/lib/a.ts'') (archive demo_final) =
     [\<lparr>filename = ''server/lib/a.ts'', arcname = ''server/lib/a.ts'', data = ''a''\<rparr>]"
    by fastforce
  with w demo_run r demo_excl(5) show ?thesis by (intro conjI)
qed



text \<open>
  C5. A root that names nothing raises no error and leaves the state as it was: no entry,
  no console line. A run over a root list that contains such a root has the same outcome
  as the run over the list without it.
\<close>

theorem missing_root:
  assumes "fs r = None"
  shows "add_include fs r st = Done st \<and>
         create_zip_with (before @ r # after) fs zip_size =
         create_zip_with (before @ after) fs zip_size"
proof -
  from assms have a: "add_include fs r st = Done st" for st
    by (simp add: add_include_def)
  have "add_includes fs (before @ r # after) init_state =
        add_includes fs (before @ after) init_state"
    by (simp add: add_includes_append a split: outcome.splits)
  with a show ?thesis by (simp add: create_zip_with_def)
qed

theorem missing_root_witness:
  "demo_fs ''client/src'' = None \<and>
   add_include demo_fs ''client/src'' init_state = Done init_state \<and>
   create_zip demo_fs 131072 = create_zip_with (tl includes_list) demo_fs 131072 \<and>
   create_zip_with (tl includes_list) demo_fs 131072 = Done demo_final"
proof -
  have f: "demo_fs ''client/src'' = None" by (simp add: demo_fs_def)
  have l: "includes_list = [] @ ''client/src'' # tl includes_list"
    by (simp add: includes_list_def)
  from missing_root [of demo_fs "''client/src''" init_state "[]" "tl includes_list" 131072] f
  have a: "add_include demo_fs ''client/src'' init_state = Done init_state"
    and "create_zip_with ([] @ ''client/src'' # tl includes_list) demo_fs 131072 =
         create_zip_with ([] @ tl includes_list) demo_fs 131072"
    by blast+
  then have b: "create_zip demo_fs 131072 = create_zip_with (tl includes_list) demo_fs 131072"
    unfolding create_zip_def l [symmetric] by simp
  with demo_run have "create_zip_with (tl includes_list) demo_fs 131072 = Done demo_final"
    by simp
  with f a b show ?thesis by (intro conjI)
qed

text \<open>
  C6. The result of the first-match loop does not depend on the order of the rules: two
  rule lists with the same rules, each as often, give the same answer on every path.
\<close>

theorem rule_order_irrelevant:
  assumes "mset rules' = mset rules"
  shows "should_exclude_with rules' p = should_exclude_with rules p"
proof -
  from assms have "set rules' = set rules" by (rule mset_eq_setD)
  then show ?thesis by (simp add: should_exclude_with_iff)
qed

theorem rule_order_irrelevant_witness:
  "mset (rev excludes) = mset excludes \<and>
   should_exclude_with (rev excludes) ''server/notes.txt'' = should_exclude ''server/notes.txt'' \<and>
   should_exclude ''server/notes.txt''"
proof -
  have m: "mset (rev excludes) = mset excludes" by simp
  from rule_order_irrelevant [OF m, of "''server/notes.txt''"] m demo_excl(3)
  show ?thesis by (simp add: should_exclude_def)
qed

text \<open>
  C7. The entries of the archive are a function of the files under the roots. Two runs over
  file systems that hold, under each root, the same files with the same bytes (directory
  listings may come in another order, the size reported for the archive may differ)
  either both complete or both abort, and when they complete their archives hold the same
  entries: the same names with the same contents.
\<close>

theorem same_tree_same_entries:
  assumes "wf_roots fs includes_list" and "wf_roots fs' includes_list"
    and "\<forall>r \<in> set includes_list. set (root_files fs r) = set (root_files fs' r)"
  shows "((\<exists>st. create_zip fs zip_size = Done st) \<longleftrightarrow>
            (\<exists>st'. create_zip fs' zip_size' = Done st')) \<and>
         (\<forall>st st'. create_zip fs zip_size = Done st \<longrightarrow> create_zip fs' zip_size' = Done st' \<longrightarrow>
            set (archive st) = set (archive st'))"
proof -
  let ?L = "included (reachable fs includes_list)"
  let ?L' = "included (reachable fs' includes_list)"
  from assms(3) have "set (reachable fs includes_list) = set (reachable fs' includes_list)"
    by (simp add: set_reachable)
  then have same: "set ?L = set ?L'" by (rule set_included_cong)
  note done_iff = run_completes_iff
  have "(\<exists>st. create_zip fs zip_size = Done st) \<longleftrightarrow>
            (\<exists>st'. create_zip fs' zip_size' = Done st')"
    unfolding done_iff [OF assms(1)] done_iff [OF assms(2)] list_all_iff same ..
  moreover have "set (archive st) = set (archive st')"
    if "create_zip fs zip_size = Done st" "create_zip fs' zip_size' = Done st'" for st st'
    using run_Done_reachable(1) [OF assms(1) that(1)] run_Done_reachable(1) [OF assms(2) that(2)]
      set_entries_cong [OF same]
    by simp
  ultimately show ?thesis by blast
qed

theorem same_tree_same_entries_witness:
  "wf_roots demo_fs includes_list \<and> wf_roots demo_fs2 includes_list \<and>
   list_all (\<lambda>r. set (root_files demo_fs r) = set (root_files demo_fs2 r)) includes_list \<and>
   create_zip demo_fs 131072 = Done demo_final \<and>
   create_zip demo_fs2 131072 = Done demo_final2 \<and>
   archive demo_final \<noteq> archive demo_final2 \<and>
   set (archive demo_final) = set (archive demo_final2)"
proof -
  from same_tree_same_entries [OF demo_wf demo_wf2 demo_same_files, of 131072 131072]
    demo_run demo_run2
  have "set (archive demo_final) = set (archive demo_final2)" by blast
  moreover have "archive demo_final \<noteq> archive demo_final2"
    by (simp add: demo_final_def demo_final2_def)
  moreover from demo_same_files
  have "list_all (\<lambda>r. set (root_files demo_fs r) = set (root_files demo_fs2 r)) includes_list"
    by (simp only: list_all_iff)
  ultimately show ?thesis
    using demo_wf demo_wf2 demo_run demo_run2 by (intro conjI)
qed



text \<open>
  C9. No entry of the archive has a name that \<open>should_exclude\<close> accepts, whether the run
  completes or is cut short by an error. The archive's own file name contains the pattern
  \<open>.zip\<close> and is excluded, so no entry name contains \<open>clean-machine-core.zip\<close>: an
  archive left by an earlier run is never added, wherever the traversal meets it.
\<close>

theorem no_excluded_entry:
  "(\<forall>e \<in> set (archive (state_of (create_zip fs zip_size))).
      \<not> should_exclude (arcname e) \<and> \<not> str_in zip_filename (arcname e)) \<and>
   should_exclude zip_filename \<and> str_in ''.zip'' zip_filename \<and> ''.zip'' \<in> set excludes"
proof -
  have "\<not> should_exclude (arcname e) \<and> \<not> str_in zip_filename (arcname e)"
    if "e \<in> set (archive (state_of (create_zip fs zip_size)))" for e
  proof -
    from run_entry [OF that [unfolded create_zip_def]]
    have n: "\<not> should_exclude (arcname e)" by auto
    with should_exclude_mono [OF zip_filename_excluded, of "arcname e"] show ?thesis by blast
  qed
  moreover have "str_in ''.zip'' zip_filename" by (simp add: zip_filename_def)
  moreover have "''.zip'' \<in> set excludes" by (simp add: excludes_def)
  ultimately show ?thesis using zip_filename_excluded by blast
qed

theorem no_excluded_entry_witness:
  "(''server/clean-machine-core.zip'', Some ''PK'') \<in> set (files_under ''server'' demo_server) \<and>
   archive (state_of (create_zip demo_fs 131072)) = archive demo_final \<and>
   archive demo_final \<noteq> [] \<and>
   list_all (\<lambda>e. \<not> should_exclude (arcname e) \<and> \<not> str_in zip_filename (arcname e))
     (archive demo_final)"
proof -
  have "(''server/clean-machine-core.zip'', Some ''PK'') \<in> set (files_under ''server'' demo_server)"
    by (simp add: demo_server_def at_root_def path_join_def scan_dirs_def)
  moreover have a: "archive (state_of (create_zip demo_fs 131072)) = archive demo_final"
    by (simp add: demo_run)
  moreover have "archive demo_final \<noteq> []" by (simp add: demo_final_def)
  moreover from no_excluded_entry [of demo_fs 131072]
  have "list_all (\<lambda>e. \<not> should_exclude (arcname e) \<and> \<not> str_in zip_filename (arcname e))
     (archive demo_final)"
    unfolding a list_all_iff by (rule conjunct1)
  ultimately show ?thesis by (intro conjI)
qed

text \<open>
  C10. Only files produce entries. Every entry of the archive, whether the run completes
  or not, carries the path and the bytes of a file reachable from the root list, and is
  stored under the path it was read from. Walking a directory below which every file is
  excluded adds no entry, and so does walking an empty directory: a directory has no
  entry of its own.
\<close>

theorem only_files_have_entries:
  "(\<forall>e \<in> set (archive (state_of (create_zip fs zip_size))).
      (arcname e, Some (data e)) \<in> set (reachable fs includes_list) \<and>
      filename e = arcname e) \<and>
   (included (files_under root (Dir es)) = [] \<longrightarrow>
      archive (state_of (walk root (Dir es) st)) = archive st) \<and>
   archive (state_of (walk root (Dir []) st)) = archive st"
proof (intro conjI ballI impI)
  fix e assume "e \<in> set (archive (state_of (create_zip fs zip_size)))"
  from run_entry [OF this [unfolded create_zip_def]] met_files_subset [of fs includes_list]
  show "(arcname e, Some (data e)) \<in> set (reachable fs includes_list)"
    and "filename e = arcname e"
    by auto
next
  assume "included (files_under root (Dir es)) = []"
  from included_walk_files_empty [OF this] show "archive (state_of (walk root (Dir es) st)) = archive st"
    by (simp only: walk_archive) (simp add: entries_simps)
next
  have "included (walk_files root (Dir [])) = []"
    by (simp add: included_def at_root_def scan_dirs_def)
  then show "archive (state_of (walk root (Dir []) st)) = archive st"
    by (simp only: walk_archive) (simp add: entries_simps)
qed

theorem only_files_have_entries_witness:
  "included (files_under ''server/tests'' (Dir [(''foo.ts'', File (Some ''t''))])) = [] \<and>
   archive (state_of (walk ''server/tests'' (Dir [(''foo.ts'', File (Some ''t''))]) init_state)) = [] \<and>
   archive (state_of (create_zip demo_fs 131072)) = archive demo_final \<and>
   list_all (\<lambda>e. (arcname e, Some (data e)) \<in> set (reachable demo_fs includes_list) \<and>
               filename e = arcname e)
     (archive demo_final)"
proof -
  have a: "included (files_under ''server/tests'' (Dir [(''foo.ts'', File (Some ''t''))])) = []"
    by (simp add: included_def at_root_def scan_dirs_def path_join_def should_exclude_def
        excludes_def)
  have b: "archive (state_of (create_zip demo_fs 131072)) = archive demo_final"
    by (simp add: demo_run)
  note t = only_files_have_entries
    [of demo_fs 131072 "''server/tests''" "[(''foo.ts'', File (Some ''t''))]" init_state]
  from t a
  have "archive (state_of (walk ''server/tests'' (Dir [(''foo.ts'', File (Some ''t''))]) init_state)) = []"
    by (simp add: init_state_def)
  moreover from t
  have "list_all (\<lambda>e. (arcname e, Some (data e)) \<in> set (reachable demo_fs includes_list) \<and>
               filename e = arcname e)
     (archive demo_final)"
    unfolding b list_all_iff by (rule conjunct1)
  ultimately show ?thesis using a b by (intro conjI)
qed

end
